theory Spec2Isabelle
  imports Main "HOL-Library.Finite_Map"
begin

section \<open>The TTL cache of \<^verbatim>\<open>cache.go\<close>\<close>

text \<open>
  Timestamps and durations are integers counted in nanoseconds, as Go's
  \<^verbatim>\<open>time.Duration\<close> is. Every operation on the map runs between
  \<^verbatim>\<open>cache.mutex.Lock()\<close> and \<^verbatim>\<open>Unlock()\<close> (\<^verbatim>\<open>RLock\<close> for \<^verbatim>\<open>Count\<close>), so an
  operation is one atomic step on the map and the mutex itself is not part of the
  state. The channel \<^verbatim>\<open>FinishedItems\<close> is not guarded by the mutex: the receives of a
  consumer interleave with the statements of the sweep, and the model of the sweep takes
  them as an argument. The clock is read inside the methods of \<^verbatim>\<open>Item\<close>; the model
  gives every operation one reading of the clock, its argument \<open>now\<close>.
\<close>

subsection \<open>Items\<close>

record Item =
  data :: string
  expiresAt :: int

text \<open>
  Modelled from the spec: the type \<^verbatim>\<open>Item\<close> and its methods \<^verbatim>\<open>touch\<close> and
  \<^verbatim>\<open>expired\<close> are used by \<^verbatim>\<open>cache.go\<close> but declared elsewhere. The spec gives an
  item a payload \<open>data\<close> and an absolute timestamp \<open>expiresAt\<close>; a touch refreshes
  \<open>expiresAt = now + ttl\<close>.
\<close>

definition touch :: "int \<Rightarrow> int \<Rightarrow> Item \<Rightarrow> Item" where
  "touch now duration item = item\<lparr>expiresAt := now + duration\<rparr>"

text \<open>
  Modelled from the spec: the method \<^verbatim>\<open>expired\<close> of \<^verbatim>\<open>Item\<close> is declared outside
  \<^verbatim>\<open>cache.go\<close>. The spec calls an item expired when \<open>now > expiresAt\<close>.
\<close>

definition expired :: "int \<Rightarrow> Item \<Rightarrow> bool" where
  "expired now item \<longleftrightarrow> now > expiresAt item"

subsection \<open>Buffered channels\<close>

text \<open>
  A buffered channel of strings: the queued values, oldest first, and the capacity given
  to \<^verbatim>\<open>make\<close>. A send on a full channel and a receive on an empty one block. Only
  the sweep sends to \<^verbatim>\<open>FinishedItems\<close>, so a sweep that blocks in a receive on the
  empty queue never resumes, which is the result \<open>None\<close>.
\<close>

record chan =
  chan_buf :: "string list"
  chan_cap :: nat

definition make_chan :: "nat \<Rightarrow> chan" where
  "make_chan n = \<lparr>chan_buf = [], chan_cap = n\<rparr>"

definition chan_len :: "chan \<Rightarrow> int" where
  "chan_len ch = int (length (chan_buf ch))"

definition chan_send :: "string \<Rightarrow> chan \<Rightarrow> chan option" where
  "chan_send v ch =
     (if length (chan_buf ch) < chan_cap ch then Some (ch\<lparr>chan_buf := chan_buf ch @ [v]\<rparr>)
      else None)"

definition chan_recv :: "chan \<Rightarrow> (string \<times> chan) option" where
  "chan_recv ch =
     (case chan_buf ch of [] \<Rightarrow> None | v # rest \<Rightarrow> Some (v, ch\<lparr>chan_buf := rest\<rparr>))"

text \<open>
  \<^verbatim>\<open>FinishedItems\<close> is an exported field, and a consumer receives from it without
  holding \<^verbatim>\<open>cache.mutex\<close>: its receives can fall between any two statements of the
  sweep. \<open>consume n\<close> is the channel after a consumer has received \<open>n\<close> values, or all
  of them when there are fewer.
\<close>

definition consume :: "nat \<Rightarrow> chan \<Rightarrow> chan" where
  "consume n ch = ch\<lparr>chan_buf := drop n (chan_buf ch)\<rparr>"

text \<open>
  What a consumer does while the sweep publishes one payload: the number of values it
  receives before the test of line 64, between the test and the next statement, and
  between the receive of line 65 and the send of line 67.
\<close>

record drains =
  at_test :: nat
  at_recv :: nat
  at_send :: nat

text \<open>The consumer that receives nothing during the sweep.\<close>

definition quiet :: "string \<Rightarrow> drains" where
  "quiet key = \<lparr>at_test = 0, at_recv = 0, at_send = 0\<rparr>"

subsection \<open>The cache\<close>

record Cache =
  ttl :: int
  items :: "(string, Item) fmap"
  Length :: int
  FinishedItems :: chan

text \<open>\<^verbatim>\<open>Set\<close>: a fresh item with the payload, touched, stored under the key.\<close>

definition Set :: "int \<Rightarrow> string \<Rightarrow> string \<Rightarrow> Cache \<Rightarrow> Cache" where
  "Set now key d cache =
     (let item = touch now (ttl cache) \<lparr>data = d, expiresAt = 0\<rparr>
      in cache\<lparr>items := fmupd key item (items cache)\<rparr>)"

text \<open>\<^verbatim>\<open>Get\<close>: the result pair \<open>(data, found)\<close> and the cache after the call.\<close>

definition Get :: "int \<Rightarrow> string \<Rightarrow> Cache \<Rightarrow> (string \<times> bool) \<times> Cache" where
  "Get now key cache =
     (case fmlookup (items cache) key of
        None \<Rightarrow> (([], False), cache)
      | Some item \<Rightarrow>
          if expired now item then (([], False), cache)
          else (let item' = touch now (ttl cache) item
                in ((data item', True), cache\<lparr>items := fmupd key item' (items cache)\<rparr>)))"

definition Delete :: "string \<Rightarrow> Cache \<Rightarrow> Cache" where
  "Delete key cache = cache\<lparr>items := fmdrop key (items cache)\<rparr>"

text \<open>\<^verbatim>\<open>Count\<close>: the returned count and the cache after the call.\<close>

definition Count :: "Cache \<Rightarrow> int \<times> Cache" where
  "Count cache = (int (card (fmdom' (items cache))), cache)"

text \<open>
  Lines 64 to 67 of \<^verbatim>\<open>cleanup\<close>: when the test finds \<open>Length\<close> values in the queue,
  the oldest is received and dropped; then the payload is sent. The three statements are
  separate steps on the channel, and the consumer's receives \<open>d\<close> fall before and
  between them.
\<close>

definition publish :: "drains \<Rightarrow> string \<Rightarrow> Cache \<Rightarrow> Cache option" where
  "publish d v cache =
     (let q0 = consume (at_test d) (FinishedItems cache);
          full = (chan_len q0 = Length cache);
          q1 = consume (at_recv d) q0
      in case (if full then map_option snd (chan_recv q1) else Some q1) of
           None \<Rightarrow> None
         | Some q2 \<Rightarrow>
             (case chan_send v (consume (at_send d) q2) of
                None \<Rightarrow> None
              | Some q3 \<Rightarrow> Some (cache\<lparr>FinishedItems := q3\<rparr>)))"

text \<open>
  The body of the loop of \<^verbatim>\<open>cleanup\<close> for one entry of the map, with the consumer's
  receives \<open>d\<close> during its publish step.
\<close>

definition cleanup_entry :: "int \<Rightarrow> string \<Rightarrow> drains \<Rightarrow> Cache \<Rightarrow> Cache option" where
  "cleanup_entry now key d cache =
     (case fmlookup (items cache) key of
        None \<Rightarrow> Some cache
      | Some item \<Rightarrow>
          if expired now item
          then publish d (data item) (cache\<lparr>items := fmdrop key (items cache)\<rparr>)
          else Some cache)"

text \<open>
  \<^verbatim>\<open>cleanup\<close>. Go leaves the order in which \<^verbatim>\<open>range\<close> visits a map open, so the
  order is an argument: \<open>keys\<close> lists the keys in the order of the visit. A run of the
  code visits every key of the map once, which is \<open>scan_of keys cache\<close>. What the
  consumer does meanwhile is an argument too: \<open>sched key\<close> are its receives while the
  entry of \<open>key\<close> is handled. (A receive at another moment of the sweep has the effect
  of one before the next test; one after the last send is a step of its own.)
\<close>

fun cleanup :: "int \<Rightarrow> string list \<Rightarrow> (string \<Rightarrow> drains) \<Rightarrow> Cache \<Rightarrow> Cache option" where
  "cleanup now [] sched cache = Some cache"
| "cleanup now (key # keys) sched cache =
     (case cleanup_entry now key (sched key) cache of
        None \<Rightarrow> None
      | Some cache' \<Rightarrow> cleanup now keys sched cache')"

definition scan_of :: "string list \<Rightarrow> Cache \<Rightarrow> bool" where
  "scan_of keys cache \<longleftrightarrow> distinct keys \<and> set keys = fmdom' (items cache)"

text \<open>
  \<^verbatim>\<open>startCleanupTimer\<close>: the result is the period handed to \<^verbatim>\<open>time.Tick\<close>, the
  interval at which the background task calls \<^verbatim>\<open>cleanup\<close>.
\<close>

definition Second :: int where
  "Second = 1000000000"

definition startCleanupTimer :: "Cache \<Rightarrow> int" where
  "startCleanupTimer cache =
     (let duration = ttl cache;
          duration = (if duration < Second then Second else duration)
      in duration)"

text \<open>
  \<^verbatim>\<open>NewCache\<close>: the new cache and the period of the sweep it has started. The struct
  literal leaves \<^verbatim>\<open>FinishedItems\<close> unset, here a channel without capacity, and the next
  statement makes the channel of capacity \<^verbatim>\<open>Length\<close>.
\<close>

definition NewCache :: "int \<Rightarrow> Cache \<times> int" where
  "NewCache duration =
     (let cache = \<lparr>ttl = duration, items = fmempty, Length = 10,
                   FinishedItems = make_chan 0\<rparr>;
          cache = cache\<lparr>FinishedItems := make_chan (nat (Length cache))\<rparr>
      in (cache, startCleanupTimer cache))"

subsection \<open>Runs of the cache\<close>

text \<open>
  The steps that act on a cache: the four exported operations, a run of the sweep and a
  consumer that receives one value from \<^verbatim>\<open>FinishedItems\<close> between two operations. A
  sweep step carries the order of its visit, which must list every key of the map once,
  and the receives of the consumer during the sweep; a step that blocks, or a sweep step
  whose order is not one of the map, has no successor state.
\<close>

datatype event =
    SetEv int string string
  | GetEv int string
  | DeleteEv string
  | CountEv
  | CleanupEv int "string list" "string \<Rightarrow> drains"
  | RecvEv

fun step :: "event \<Rightarrow> Cache \<Rightarrow> Cache option" where
  "step (SetEv now key d) cache = Some (Set now key d cache)"
| "step (GetEv now key) cache = Some (snd (Get now key cache))"
| "step (DeleteEv key) cache = Some (Delete key cache)"
| "step CountEv cache = Some (snd (Count cache))"
| "step (CleanupEv now keys sched) cache =
     (if scan_of keys cache then cleanup now keys sched cache else None)"
| "step RecvEv cache =
     (case chan_recv (FinishedItems cache) of
        None \<Rightarrow> None
      | Some (v, ch) \<Rightarrow> Some (cache\<lparr>FinishedItems := ch\<rparr>))"

text \<open>
  A touch is a \<^verbatim>\<open>Set\<close> of the key or a \<^verbatim>\<open>Get\<close> that finds it: \<open>touched e cache\<close> is
  the key that the step \<open>e\<close> touches in \<open>cache\<close> and the time of the touch.
\<close>

fun touched :: "event \<Rightarrow> Cache \<Rightarrow> (string \<times> int) option" where
  "touched (SetEv now key d) cache = Some (key, now)"
| "touched (GetEv now key) cache =
     (if snd (fst (Get now key cache)) then Some (key, now) else None)"
| "touched e cache = None"

text \<open>
  A run threads the cache through a list of steps and records, beside it, the time of
  the last touch of every key.
\<close>

fun run :: "event list \<Rightarrow> Cache \<times> (string \<rightharpoonup> int) \<Rightarrow> (Cache \<times> (string \<rightharpoonup> int)) option" where
  "run [] s = Some s"
| "run (e # es) (cache, seen) =
     (case step e cache of
        None \<Rightarrow> None
      | Some cache' \<Rightarrow>
          run es (cache', case touched e cache of
                            None \<Rightarrow> seen
                          | Some (key, now) \<Rightarrow> seen(key \<mapsto> now)))"

text \<open>
  The payload that the step stores under the key \<open>k\<close>, when the step is a \<^verbatim>\<open>Set\<close> of
  \<open>k\<close>; and the payload of the most recent \<^verbatim>\<open>Set\<close> of \<open>k\<close> in a list of steps, the
  oldest step first.
\<close>

fun set_payload :: "event \<Rightarrow> string \<Rightarrow> string option" where
  "set_payload (SetEv now key d) k = (if key = k then Some d else None)"
| "set_payload e k = None"

fun last_set :: "event list \<Rightarrow> string \<Rightarrow> string option" where
  "last_set [] k = None"
| "last_set (e # es) k =
     (case last_set es k of Some d \<Rightarrow> Some d | None \<Rightarrow> set_payload e k)"

subsection \<open>Notions used by the statements\<close>

text \<open>The field \<^verbatim>\<open>Length\<close> is the capacity of the queue, and the capacity is positive.\<close>

definition queue_inv :: "Cache \<Rightarrow> bool" where
  "queue_inv cache \<longleftrightarrow>
     Length cache = int (chan_cap (FinishedItems cache)) \<and>
     0 < chan_cap (FinishedItems cache) \<and>
     length (chan_buf (FinishedItems cache)) \<le> chan_cap (FinishedItems cache)"

text \<open>An entry of the map that is expired at \<open>now\<close>.\<close>

definition stale :: "int \<Rightarrow> Cache \<Rightarrow> string \<Rightarrow> bool" where
  "stale now cache key =
     (case fmlookup (items cache) key of None \<Rightarrow> False | Some item \<Rightarrow> expired now item)"

text \<open>The payloads of the expired entries, in the order in which the keys are visited.\<close>

definition reclaimed :: "int \<Rightarrow> string list \<Rightarrow> Cache \<Rightarrow> string list" where
  "reclaimed now keys cache =
     concat (map (\<lambda>key. case fmlookup (items cache) key of
                           None \<Rightarrow> []
                         | Some item \<Rightarrow> if expired now item then [data item] else []) keys)"

text \<open>The last \<open>n\<close> elements of a list.\<close>

definition lastn :: "nat \<Rightarrow> 'a list \<Rightarrow> 'a list" where
  "lastn n xs = drop (length xs - n) xs"

text \<open>
  What the spec says a sweep leaves behind when no consumer receives meanwhile: the
  entries that are not expired, and in the queue the last values, up to the capacity, of
  the old queue followed by the payloads of the expired entries.
\<close>

definition swept :: "int \<Rightarrow> string list \<Rightarrow> Cache \<Rightarrow> Cache" where
  "swept now keys cache =
     cache\<lparr>items := fmfilter (\<lambda>k. \<not> (k \<in> set keys \<and> stale now cache k)) (items cache),
           FinishedItems := (FinishedItems cache)\<lparr>chan_buf :=
             lastn (chan_cap (FinishedItems cache))
               (chan_buf (FinishedItems cache) @ reclaimed now keys cache)\<rparr>\<rparr>"

text \<open>
  The invariant of a run: the \<open>ttl\<close> is the one given at construction, and every item
  of the map expires at the time of the last touch of its key plus that \<open>ttl\<close>.
\<close>

definition touch_inv :: "int \<Rightarrow> Cache \<times> (string \<rightharpoonup> int) \<Rightarrow> bool" where
  "touch_inv d s \<longleftrightarrow>
     ttl (fst s) = d \<and>
     (\<forall>k item. fmlookup (items (fst s)) k = Some item \<longrightarrow>
        (\<exists>t. snd s k = Some t \<and> expiresAt item = t + d))"

text \<open>
  A cache with eleven entries, one more than the queue holds, each set at time 0 with a
  \<open>ttl\<close> of 5.
\<close>

definition eleven :: Cache where
  "eleven =
     fold (\<lambda>(key, d). Set 0 key d)
       [(''a'', ''1''), (''b'', ''2''), (''c'', ''3''), (''d'', ''4''), (''e'', ''5''),
        (''f'', ''6''), (''g'', ''7''), (''h'', ''8''), (''i'', ''9''), (''j'', ''10''),
        (''k'', ''11'')]
       (fst (NewCache 5))"

text \<open>
  The cache \<open>eleven\<close> after a sweep at time 6 that visits the keys from \<open>k\<close> down to
  \<open>a\<close> while no consumer receives: the map is empty and the queue is full. And that
  cache after a \<^verbatim>\<open>Set\<close> of one more key at time 7.
\<close>

definition full_queue :: Cache where
  "full_queue =
     (fst (NewCache 5))\<lparr>FinishedItems :=
       \<lparr>chan_buf = [''10'', ''9'', ''8'', ''7'', ''6'', ''5'', ''4'', ''3'', ''2'', ''1''],
        chan_cap = 10\<rparr>\<rparr>"

definition twelfth :: Cache where
  "twelfth = Set 7 ''z'' ''12'' full_queue"

text \<open>
  A consumer that receives ten values between the test of line 64 and the receive of
  line 65.
\<close>

definition racy :: "string \<Rightarrow> drains" where
  "racy key = \<lparr>at_test = 0, at_recv = 10, at_send = 0\<rparr>"

section \<open>Auxiliary facts\<close>

subsection \<open>Lists and finite sets\<close>

lemma card_split_pred:
  "finite A \<Longrightarrow> card A = card {x \<in> A. P x} + card {x \<in> A. \<not> P x}"
proof -
  assume fin: "finite A"
  have "A = {x \<in> A. P x} \<union> {x \<in> A. \<not> P x}" by blast
  moreover have "{x \<in> A. P x} \<inter> {x \<in> A. \<not> P x} = {}" by blast
  ultimately show ?thesis
    using fin card_Un_disjoint [of "{x \<in> A. P x}" "{x \<in> A. \<not> P x}"] by simp
qed

lemma lastn_short: "length xs \<le> n \<Longrightarrow> lastn n xs = xs"
  by (simp add: lastn_def)

lemma length_lastn: "length (lastn n xs) = min n (length xs)"
  by (simp add: lastn_def)

lemma lastn_append_lastn: "lastn n (lastn n xs @ ys) = lastn n (xs @ ys)"
proof (cases "length xs \<le> n")
  case True
  then show ?thesis by (simp add: lastn_short)
next
  case False
  then have "length (lastn n xs) = n" by (simp add: length_lastn)
  then have "lastn n (lastn n xs @ ys) = drop (length ys) (drop (length xs - n) xs @ ys)"
    by (simp add: lastn_def)
  also have "\<dots> = drop (length xs - n + length ys) (xs @ ys)"
    using False by (simp add: add.commute)
  also have "\<dots> = lastn n (xs @ ys)"
    using False by (simp add: lastn_def)
  finally show ?thesis .
qed

subsection \<open>The publish step\<close>

lemma publish_frame:
  "publish d v cache = Some cache' \<Longrightarrow>
     items cache' = items cache \<and> ttl cache' = ttl cache \<and> Length cache' = Length cache"
  by (auto simp: publish_def Let_def split: option.splits if_splits)

lemma publish_queue_inv:
  assumes "queue_inv cache" and "publish d v cache = Some cache'"
  shows "queue_inv cache'"
  using assms
  by (auto simp: publish_def Let_def queue_inv_def chan_send_def chan_recv_def consume_def
      split: option.splits if_splits list.splits)

lemma publish_result:
  assumes "queue_inv cache"
  shows "publish (quiet key) v cache =
    Some (cache\<lparr>FinishedItems := (FinishedItems cache)\<lparr>chan_buf :=
      lastn (chan_cap (FinishedItems cache)) (chan_buf (FinishedItems cache) @ [v])\<rparr>\<rparr>)"
proof (cases "length (chan_buf (FinishedItems cache)) = chan_cap (FinishedItems cache)")
  case True
  with assms obtain x rest where b: "chan_buf (FinishedItems cache) = x # rest"
    by (cases "chan_buf (FinishedItems cache)") (auto simp: queue_inv_def)
  with True assms show ?thesis
    by (auto simp: publish_def quiet_def consume_def Let_def queue_inv_def chan_len_def
        chan_recv_def chan_send_def lastn_def)
next
  case False
  with assms show ?thesis
    by (auto simp: publish_def quiet_def consume_def Let_def queue_inv_def chan_len_def
        chan_send_def lastn_def)
qed

lemma queue_inv_publish:
  assumes "queue_inv cache"
  shows "queue_inv (cache\<lparr>FinishedItems := (FinishedItems cache)\<lparr>chan_buf :=
      lastn (chan_cap (FinishedItems cache)) xs\<rparr>\<rparr>)"
  using assms by (simp add: queue_inv_def length_lastn)

text \<open>
  The publish step blocks exactly when the test finds the queue full and the consumer
  then empties it before the receive of line 65.
\<close>

lemma publish_blocks_iff:
  assumes "queue_inv cache"
  shows "publish d v cache = None \<longleftrightarrow>
    length (chan_buf (FinishedItems cache)) - at_test d = chan_cap (FinishedItems cache) \<and>
    chan_cap (FinishedItems cache) \<le> at_recv d"
proof -
  let ?q = "FinishedItems cache"
  let ?tested = "consume (at_test d) ?q"
  let ?drained = "consume (at_recv d) ?tested"
  have l0: "length (chan_buf ?tested) = length (chan_buf ?q) - at_test d"
    and l1: "length (chan_buf ?drained) = length (chan_buf ?q) - at_test d - at_recv d"
    and c1: "chan_cap ?drained = chan_cap ?q"
    by (simp_all add: consume_def)
  from assms have cap: "Length cache = int (chan_cap ?q)" "0 < chan_cap ?q"
    "length (chan_buf ?q) \<le> chan_cap ?q"
    by (simp_all add: queue_inv_def)
  show ?thesis
  proof (cases "chan_len ?tested = Length cache")
    case True
    with cap(1) l0 have f: "length (chan_buf ?q) - at_test d = chan_cap ?q"
      by (simp add: chan_len_def)
    show ?thesis
    proof (cases "chan_buf ?drained")
      case Nil
      with l1 f have "chan_cap ?q \<le> at_recv d" by simp
      moreover from Nil True have "publish d v cache = None"
        by (simp add: publish_def Let_def chan_recv_def)
      ultimately show ?thesis using f by simp
    next
      case (Cons x rest)
      with l1 f have n: "\<not> chan_cap ?q \<le> at_recv d" and "length rest < chan_cap ?q"
        by auto
      then have "length (drop (at_send d) rest) < chan_cap ?q" by simp
      with Cons True c1 have "publish d v cache \<noteq> None"
        by (simp add: publish_def Let_def chan_recv_def chan_send_def consume_def)
      with n show ?thesis by simp
    qed
  next
    case False
    with cap(1) l0 have n: "length (chan_buf ?q) - at_test d \<noteq> chan_cap ?q"
      by (simp add: chan_len_def)
    with cap(3) l1 have "length (drop (at_send d) (chan_buf ?drained)) < chan_cap ?q"
      by simp
    with False c1 have "publish d v cache \<noteq> None"
      by (simp add: publish_def Let_def chan_send_def consume_def)
    with n show ?thesis by simp
  qed
qed

subsection \<open>The loop of the sweep\<close>

lemma cleanup_entry_lookup:
  "cleanup_entry now key d cache = Some cache' \<Longrightarrow>
     fmlookup (items cache') k = None \<or> fmlookup (items cache') k = fmlookup (items cache) k"
  by (auto simp: cleanup_entry_def split: option.splits if_splits dest!: publish_frame)

lemma cleanup_lookup:
  "cleanup now keys sched cache = Some cache' \<Longrightarrow>
     fmlookup (items cache') k = None \<or> fmlookup (items cache') k = fmlookup (items cache) k"
proof (induction keys arbitrary: cache)
  case Nil
  then show ?case by simp
next
  case (Cons key keys)
  from Cons.prems obtain c1 where e: "cleanup_entry now key (sched key) cache = Some c1"
    and r: "cleanup now keys sched c1 = Some cache'"
    by (auto split: option.splits)
  from Cons.IH [OF r] cleanup_entry_lookup [OF e, of k] show ?case by auto
qed

lemma cleanup_entry_frame:
  "cleanup_entry now key d cache = Some cache' \<Longrightarrow>
     ttl cache' = ttl cache \<and> Length cache' = Length cache"
  by (auto simp: cleanup_entry_def split: option.splits if_splits dest!: publish_frame)

lemma cleanup_frame:
  "cleanup now keys sched cache = Some cache' \<Longrightarrow>
     ttl cache' = ttl cache \<and> Length cache' = Length cache"
proof (induction keys arbitrary: cache)
  case Nil
  then show ?case by simp
next
  case (Cons key keys)
  from Cons.prems obtain c1 where e: "cleanup_entry now key (sched key) cache = Some c1"
    and r: "cleanup now keys sched c1 = Some cache'"
    by (auto split: option.splits)
  from Cons.IH [OF r] cleanup_entry_frame [OF e] show ?case by simp
qed

lemma cleanup_entry_queue_inv:
  "queue_inv cache \<Longrightarrow> cleanup_entry now key d cache = Some cache' \<Longrightarrow> queue_inv cache'"
proof -
  assume q: "queue_inv cache" and e: "cleanup_entry now key d cache = Some cache'"
  have q0: "queue_inv (cache\<lparr>items := fmdrop key (items cache)\<rparr>)"
    using q by (simp add: queue_inv_def)
  from e show ?thesis
    using q publish_queue_inv [OF q0]
    by (auto simp: cleanup_entry_def split: option.splits if_splits)
qed

lemma cleanup_queue_inv:
  "queue_inv cache \<Longrightarrow> cleanup now keys sched cache = Some cache' \<Longrightarrow> queue_inv cache'"
proof (induction keys arbitrary: cache)
  case Nil
  then show ?case by simp
next
  case (Cons key keys)
  from Cons.prems(2) obtain c1 where e: "cleanup_entry now key (sched key) cache = Some c1"
    and r: "cleanup now keys sched c1 = Some cache'"
    by (auto split: option.splits)
  from Cons.IH [OF cleanup_entry_queue_inv [OF Cons.prems(1) e] r] show ?case .
qed

subsection \<open>The result of a sweep\<close>

lemma reclaimed_Nil: "reclaimed now [] cache = []"
  by (simp add: reclaimed_def)

lemma reclaimed_Cons:
  "reclaimed now (key # keys) cache =
     (case fmlookup (items cache) key of
        None \<Rightarrow> []
      | Some item \<Rightarrow> if expired now item then [data item] else []) @ reclaimed now keys cache"
  by (simp add: reclaimed_def)

lemma reclaimed_cong:
  "(\<And>k. k \<in> set keys \<Longrightarrow> fmlookup (items c') k = fmlookup (items c) k) \<Longrightarrow>
     reclaimed now keys c' = reclaimed now keys c"
  by (induction keys) (simp_all add: reclaimed_def)

lemma cleanup_result:
  assumes "queue_inv cache" and "distinct keys"
  shows "cleanup now keys quiet cache = Some (swept now keys cache)"
  using assms
proof (induction keys arbitrary: cache)
  case Nil
  then show ?case
    by (simp add: swept_def reclaimed_def queue_inv_def lastn_short)
next
  case (Cons key keys)
  from Cons.prems have d: "distinct keys" and nk: "key \<notin> set keys" by simp_all
  show ?case
  proof (cases "stale now cache key")
    case False
    then have e: "cleanup_entry now key (quiet key) cache = Some cache"
      by (auto simp: cleanup_entry_def stale_def split: option.splits)
    have f: "fmfilter (\<lambda>k. \<not> (k \<in> set (key # keys) \<and> stale now cache k)) (items cache) =
        fmfilter (\<lambda>k. \<not> (k \<in> set keys \<and> stale now cache k)) (items cache)"
      using False by (intro fmfilter_cong) auto
    have r: "reclaimed now (key # keys) cache = reclaimed now keys cache"
      using False by (auto simp: reclaimed_Cons stale_def split: option.splits)
    from Cons.IH [OF Cons.prems(1) d] e f r show ?thesis
      by (simp add: swept_def)
  next
    case True
    then obtain item where l: "fmlookup (items cache) key = Some item"
      and x: "expired now item"
      by (auto simp: stale_def split: option.splits)
    let ?c0 = "cache\<lparr>items := fmdrop key (items cache)\<rparr>"
    let ?c1 = "?c0\<lparr>FinishedItems := (FinishedItems ?c0)\<lparr>chan_buf :=
      lastn (chan_cap (FinishedItems ?c0)) (chan_buf (FinishedItems ?c0) @ [data item])\<rparr>\<rparr>"
    from Cons.prems(1) have q0: "queue_inv ?c0" by (simp add: queue_inv_def)
    then have q1: "queue_inv ?c1" by (rule queue_inv_publish)
    from l x publish_result [OF q0, of key "data item"]
    have e: "cleanup_entry now key (quiet key) cache = Some ?c1"
      by (simp add: cleanup_entry_def)
    have same: "fmlookup (items ?c1) k = fmlookup (items cache) k" if "k \<in> set keys" for k
      using that nk by auto
    have r: "reclaimed now keys ?c1 = reclaimed now keys cache"
      by (rule reclaimed_cong) (rule same)
    have st: "stale now ?c1 k = (k \<noteq> key \<and> stale now cache k)" for k
      by (simp add: stale_def)
    have f: "fmfilter (\<lambda>k. \<not> (k \<in> set keys \<and> stale now ?c1 k)) (items ?c1) =
        fmfilter (\<lambda>k. \<not> (k \<in> set (key # keys) \<and> stale now cache k)) (items cache)"
    proof (rule fmap_ext)
      fix k
      show "fmlookup (fmfilter (\<lambda>k. \<not> (k \<in> set keys \<and> stale now ?c1 k)) (items ?c1)) k =
          fmlookup (fmfilter (\<lambda>k. \<not> (k \<in> set (key # keys) \<and> stale now cache k))
            (items cache)) k"
        unfolding st using True by auto
    qed
    have b: "lastn (chan_cap (FinishedItems cache))
          (lastn (chan_cap (FinishedItems cache)) (chan_buf (FinishedItems cache) @ [data item])
             @ reclaimed now keys cache) =
        lastn (chan_cap (FinishedItems cache))
          (chan_buf (FinishedItems cache) @ reclaimed now (key # keys) cache)"
      using l x by (simp add: lastn_append_lastn reclaimed_Cons)
    have "cleanup now (key # keys) quiet cache = cleanup now keys quiet ?c1"
      using e by simp
    also have "\<dots> = Some (swept now keys ?c1)"
      by (rule Cons.IH [OF q1 d])
    also have "swept now keys ?c1 = swept now (key # keys) cache"
      unfolding swept_def f r using b by simp
    finally show ?thesis .
  qed
qed

lemma stale_in_dom: "stale now cache k \<Longrightarrow> k \<in> fmdom' (items cache)"
  by (auto simp: stale_def fmlookup_dom'_iff split: option.splits)

lemma length_reclaimed:
  "length (reclaimed now keys cache) = length (filter (stale now cache) keys)"
  by (induction keys) (auto simp: reclaimed_Nil reclaimed_Cons stale_def split: option.splits)

lemma set_reclaimed:
  "set (reclaimed now keys cache) =
     {data item | k item. k \<in> set keys \<and> fmlookup (items cache) k = Some item \<and> expired now item}"
proof (induction keys)
  case Nil
  then show ?case by (simp add: reclaimed_Nil)
next
  case (Cons key keys)
  have "set (reclaimed now (key # keys) cache) =
      {data item | item. fmlookup (items cache) key = Some item \<and> expired now item} \<union>
      set (reclaimed now keys cache)"
    by (auto simp: reclaimed_Cons split: option.splits)
  also have "\<dots> =
      {data item | k item. k \<in> set (key # keys) \<and> fmlookup (items cache) k = Some item \<and>
         expired now item}"
    unfolding Cons.IH by auto
  finally show ?case .
qed

lemma card_stale:
  assumes "scan_of keys cache"
  shows "length (reclaimed now keys cache) = card {k. stale now cache k}"
proof -
  from assms have d: "distinct keys" and s: "set keys = fmdom' (items cache)"
    by (simp_all add: scan_of_def)
  have "length (filter (stale now cache) keys) = card (set (filter (stale now cache) keys))"
    using d distinct_card [of "filter (stale now cache) keys"] by simp
  also have "set (filter (stale now cache) keys) = {k. stale now cache k}"
    using s by (auto dest: stale_in_dom)
  finally show ?thesis by (simp add: length_reclaimed)
qed

subsection \<open>Runs\<close>

lemma step_ttl: "step e cache = Some cache' \<Longrightarrow> ttl cache' = ttl cache"
  by (cases e)
    (auto simp: Set_def Get_def Delete_def Count_def Let_def
      split: option.splits if_splits dest: cleanup_frame)

lemma step_item:
  assumes "step e cache = Some cache'"
    and "fmlookup (items cache) k = Some item"
    and "fmlookup (items cache') k = Some item'"
  shows "item' = item \<or> (\<exists>t. touched e cache = Some (k, t) \<and> expiresAt item' = t + ttl cache)"
proof (cases e)
  case (SetEv now key d)
  with assms show ?thesis by (auto simp: Set_def touch_def Let_def split: if_splits)
next
  case (GetEv now key)
  with assms show ?thesis
    by (auto simp: Get_def touch_def Let_def split: option.splits if_splits)
next
  case (DeleteEv key)
  with assms show ?thesis by (auto simp: Delete_def split: if_splits)
next
  case CountEv
  with assms show ?thesis by (simp add: Count_def)
next
  case (CleanupEv now keys sched)
  with assms(1) have "cleanup now keys sched cache = Some cache'" by (simp split: if_splits)
  from cleanup_lookup [OF this, of k] assms(2,3) show ?thesis by simp
next
  case RecvEv
  with assms show ?thesis by (auto split: option.splits)
qed

lemma step_fresh:
  assumes "step e cache = Some cache'"
    and "fmlookup (items cache) k = None"
    and "fmlookup (items cache') k = Some item'"
  shows "\<exists>t. touched e cache = Some (k, t) \<and> expiresAt item' = t + ttl cache"
proof (cases e)
  case (SetEv now key d)
  with assms show ?thesis by (auto simp: Set_def touch_def Let_def split: if_splits)
next
  case (GetEv now key)
  with assms show ?thesis
    by (auto simp: Get_def touch_def Let_def split: option.splits if_splits)
next
  case (DeleteEv key)
  with assms show ?thesis by (auto simp: Delete_def split: if_splits)
next
  case CountEv
  with assms show ?thesis by (simp add: Count_def)
next
  case (CleanupEv now keys sched)
  with assms(1) have "cleanup now keys sched cache = Some cache'" by (simp split: if_splits)
  from cleanup_lookup [OF this, of k] assms(2,3) show ?thesis by simp
next
  case RecvEv
  with assms show ?thesis by (auto split: option.splits)
qed

lemma touched_expiry:
  assumes "step e cache = Some cache'" and "touched e cache = Some (k, t)"
  shows "\<exists>item'. fmlookup (items cache') k = Some item' \<and> expiresAt item' = t + ttl cache"
proof (cases e)
  case (SetEv now key d)
  with assms show ?thesis by (auto simp: Set_def touch_def Let_def)
next
  case (GetEv now key)
  with assms show ?thesis
    by (auto simp: Get_def touch_def Let_def split: option.splits if_splits)
qed (use assms in simp_all)

lemma step_touch_inv:
  assumes "touch_inv d (cache, seen)" and "step e cache = Some cache'"
  shows "touch_inv d (cache', case touched e cache of
                                None \<Rightarrow> seen
                              | Some (key, now) \<Rightarrow> seen(key \<mapsto> now))"
proof -
  let ?seen' = "case touched e cache of None \<Rightarrow> seen | Some (key, now) \<Rightarrow> seen(key \<mapsto> now)"
  from assms have t: "ttl cache = d" "ttl cache' = d"
    by (simp_all add: touch_inv_def step_ttl)
  have "\<exists>t. ?seen' k = Some t \<and> expiresAt item' = t + d"
    if l': "fmlookup (items cache') k = Some item'" for k item'
  proof (cases "\<exists>t. touched e cache = Some (k, t)")
    case True
    then obtain t where tt: "touched e cache = Some (k, t)" by blast
    from touched_expiry [OF assms(2) tt] l' t have "expiresAt item' = t + d" by simp
    with tt show ?thesis by simp
  next
    case False
    then have s: "?seen' k = seen k" by (auto split: option.splits)
    from False step_fresh [OF assms(2) _ l'] obtain item
      where l: "fmlookup (items cache) k = Some item"
      by (cases "fmlookup (items cache) k") auto
    from False step_item [OF assms(2) l l'] have "item' = item" by blast
    with assms(1) l s show ?thesis by (simp add: touch_inv_def)
  qed
  with t show ?thesis by (simp add: touch_inv_def)
qed

lemma run_touch_inv:
  "touch_inv d s \<Longrightarrow> run es s = Some s' \<Longrightarrow> touch_inv d s'"
proof (induction es arbitrary: s)
  case Nil
  then show ?case by simp
next
  case (Cons e es)
  obtain cache seen where s: "s = (cache, seen)" by (cases s)
  with Cons.prems(2) obtain cache' where st: "step e cache = Some cache'"
    and r: "run es (cache', case touched e cache of
                              None \<Rightarrow> seen
                            | Some (key, now) \<Rightarrow> seen(key \<mapsto> now)) = Some s'"
    by (auto split: option.splits)
  from Cons.prems(1) s have "touch_inv d (cache, seen)" by simp
  from Cons.IH [OF step_touch_inv [OF this st] r] show ?case .
qed

lemma reachable_touch_inv:
  assumes "run es (fst (NewCache duration), Map.empty) = Some (cache, seen)"
  shows "touch_inv duration (cache, seen)"
proof -
  have "touch_inv duration (fst (NewCache duration), Map.empty)"
    by (simp add: touch_inv_def NewCache_def Let_def)
  from run_touch_inv [OF this assms] show ?thesis .
qed

lemma step_data:
  assumes "step e cache = Some cache'" and "fmlookup (items cache') k = Some item'"
  shows "case set_payload e k of
           Some d \<Rightarrow> data item' = d
         | None \<Rightarrow> \<exists>item. fmlookup (items cache) k = Some item \<and> data item = data item'"
proof (cases e)
  case (SetEv now key d)
  with assms show ?thesis by (auto simp: Set_def touch_def Let_def split: if_splits)
next
  case (GetEv now key)
  with assms show ?thesis
    by (auto simp: Get_def touch_def Let_def split: option.splits if_splits)
next
  case (DeleteEv key)
  with assms show ?thesis by (auto simp: Delete_def split: if_splits)
next
  case CountEv
  with assms show ?thesis by (simp add: Count_def)
next
  case (CleanupEv now keys sched)
  with assms(1) have "cleanup now keys sched cache = Some cache'" by (simp split: if_splits)
  from cleanup_lookup [OF this, of k] assms(2)
  have "fmlookup (items cache) k = Some item'" by auto
  with CleanupEv show ?thesis by simp
next
  case RecvEv
  with assms show ?thesis by (auto split: option.splits)
qed

lemma run_last_set:
  assumes "run es (cache, seen) = Some (cache', seen')"
    and "fmlookup (items cache') k = Some item'"
  shows "case last_set es k of
           Some d \<Rightarrow> data item' = d
         | None \<Rightarrow> \<exists>item. fmlookup (items cache) k = Some item \<and> data item = data item'"
  using assms
proof (induction es arbitrary: cache seen)
  case Nil
  then show ?case by simp
next
  case (Cons e es)
  from Cons.prems(1) obtain c1 s1 where st: "step e cache = Some c1"
    and r: "run es (c1, s1) = Some (cache', seen')"
    by (auto split: option.splits)
  note ih = Cons.IH [OF r Cons.prems(2)]
  show ?case
  proof (cases "last_set es k")
    case (Some d)
    with ih show ?thesis by simp
  next
    case None
    with ih obtain item1 where l1: "fmlookup (items c1) k = Some item1"
      and d1: "data item1 = data item'" by auto
    from step_data [OF st l1] d1 None show ?thesis
      by (auto split: option.splits)
  qed
qed

lemma reachable_last_set:
  assumes "run es (fst (NewCache duration), Map.empty) = Some (cache, seen)"
    and "fmlookup (items cache) k = Some item"
  shows "last_set es k = Some (data item)"
  using run_last_set [OF assms] by (auto simp: NewCache_def Let_def split: option.splits)

lemma step_queue_inv:
  assumes "queue_inv cache" and "step e cache = Some cache'"
  shows "queue_inv cache'"
proof (cases e)
  case (CleanupEv now keys sched)
  with assms(2) have "cleanup now keys sched cache = Some cache'" by (simp split: if_splits)
  from cleanup_queue_inv [OF assms(1) this] show ?thesis .
next
  case RecvEv
  with assms show ?thesis
    by (auto simp: queue_inv_def chan_recv_def split: option.splits list.splits)
qed (use assms in \<open>auto simp: queue_inv_def Set_def Get_def Delete_def Count_def Let_def
      split: option.splits if_splits\<close>)

lemma run_queue_inv:
  "queue_inv (fst s) \<Longrightarrow> run es s = Some s' \<Longrightarrow> queue_inv (fst s')"
proof (induction es arbitrary: s)
  case Nil
  then show ?case by simp
next
  case (Cons e es)
  obtain cache seen where s: "s = (cache, seen)" by (cases s)
  with Cons.prems(2) obtain cache' seen' where st: "step e cache = Some cache'"
    and r: "run es (cache', seen') = Some s'"
    by (auto split: option.splits)
  from Cons.prems(1) s have "queue_inv cache" by simp
  from Cons.IH [OF _ r] step_queue_inv [OF this st] show ?case by simp
qed

lemma reachable_queue_inv:
  "run es (fst (NewCache duration), Map.empty) = Some (cache, seen) \<Longrightarrow> queue_inv cache"
  using run_queue_inv [of "(fst (NewCache duration), Map.empty)" es "(cache, seen)"]
  by (simp add: NewCache_def Let_def make_chan_def queue_inv_def)

lemma sweep_step_returns:
  assumes "run es (fst (NewCache duration), Map.empty) = Some (cache, seen)"
    and "scan_of keys cache"
  shows "\<exists>cache'. step (CleanupEv now keys quiet) cache = Some cache'"
  using cleanup_result [OF reachable_queue_inv [OF assms(1)], of keys now] assms(2)
  by (simp add: scan_of_def)

section \<open>NewCache\<close>

text \<open>
  Claim C8. For every \<open>duration\<close>, also zero and negative ones, \<^verbatim>\<open>NewCache\<close>
  returns a cache with that \<open>ttl\<close>, an empty map, and an empty queue of capacity 10, and
  starts the sweep with the period \<^verbatim>\<open>startCleanupTimer\<close> computes: the larger of
  \<open>duration\<close> and one second, so at least one second and positive.
\<close>

theorem NewCache_initial:
  "ttl (fst (NewCache duration)) = duration \<and>
   items (fst (NewCache duration)) = fmempty \<and>
   fst (Count (fst (NewCache duration))) = 0 \<and>
   Length (fst (NewCache duration)) = 10 \<and>
   FinishedItems (fst (NewCache duration)) = \<lparr>chan_buf = [], chan_cap = 10\<rparr> \<and>
   queue_inv (fst (NewCache duration)) \<and>
   snd (NewCache duration) = startCleanupTimer (fst (NewCache duration)) \<and>
   snd (NewCache duration) = max duration Second \<and>
   Second \<le> snd (NewCache duration) \<and>
   0 < snd (NewCache duration)"
  by (simp add: NewCache_def make_chan_def Let_def Count_def queue_inv_def
      startCleanupTimer_def Second_def max_def)

theorem NewCache_initial_witness:
  "snd (NewCache 0) = 1000000000 \<and> snd (NewCache (- 7)) = 1000000000 \<and>
   snd (NewCache 3000000000) = 3000000000 \<and>
   chan_cap (FinishedItems (fst (NewCache 0))) = 10"
  using NewCache_initial [of 0] NewCache_initial [of "- 7"] NewCache_initial [of 3000000000]
  by (simp add: Second_def)

section \<open>Set\<close>

text \<open>
  Claim C6. \<^verbatim>\<open>Set\<close> is total. It stores under the key an item with the payload and
  \<open>expiresAt = now + ttl\<close> and leaves the other keys alone; the count grows by one when
  the key is new and stays when it is not. A second \<^verbatim>\<open>Set\<close> of the same key leaves the
  cache a single \<^verbatim>\<open>Set\<close> would: one entry for the key, holding the second payload, the
  count as after the first, and nothing sent to the notification queue.
\<close>

theorem Set_overwrites:
  "fmlookup (items (Set now key d cache)) key' =
     (if key' = key then Some \<lparr>data = d, expiresAt = now + ttl cache\<rparr>
      else fmlookup (items cache) key') \<and>
   fst (Count (Set now key d cache)) =
     fst (Count cache) + (if key \<in> fmdom' (items cache) then 0 else 1) \<and>
   Set t2 key v2 (Set t1 key v1 cache) = Set t2 key v2 cache \<and>
   fmlookup (items (Set t2 key v2 (Set t1 key v1 cache))) key =
     Some \<lparr>data = v2, expiresAt = t2 + ttl cache\<rparr> \<and>
   fst (Count (Set t2 key v2 (Set t1 key v1 cache))) = fst (Count (Set t1 key v1 cache)) \<and>
   FinishedItems (Set t2 key v2 (Set t1 key v1 cache)) = FinishedItems cache \<and>
   ttl (Set now key d cache) = ttl cache"
  by (auto simp: Set_def Count_def touch_def Let_def insert_absorb)

theorem Set_overwrites_witness:
  "''a'' \<notin> fmdom' (items (fst (NewCache 5))) \<and>
   fst (Count (Set 0 ''a'' ''1'' (fst (NewCache 5)))) = 1 \<and>
   fst (Count (Set 3 ''a'' ''2'' (Set 0 ''a'' ''1'' (fst (NewCache 5))))) = 1 \<and>
   fmlookup (items (Set 3 ''a'' ''2'' (Set 0 ''a'' ''1'' (fst (NewCache 5))))) ''a'' =
     Some \<lparr>data = ''2'', expiresAt = 8\<rparr> \<and>
   chan_buf (FinishedItems (Set 3 ''a'' ''2'' (Set 0 ''a'' ''1'' (fst (NewCache 5))))) = []"
  using Set_overwrites [of 0 "''a''" "''1''" "fst (NewCache 5)" "''a''" 3 "''2''" 0 "''1''"]
  by (simp add: NewCache_def make_chan_def Let_def Count_def Set_def touch_def)

section \<open>Get\<close>

text \<open>
  Claim C3. When the key is in the map and its item is not expired, \<^verbatim>\<open>Get\<close> returns
  the payload of the item with \<open>found = True\<close>, and the item is stored again with
  \<open>expiresAt = now + ttl\<close>. After \<^verbatim>\<open>Set\<close> of \<open>v\<close> at \<open>t0\<close>, a \<^verbatim>\<open>Get\<close> at any \<open>t1\<close>
  up to \<open>t0 + ttl\<close> (so at any \<open>t1\<close> with \<open>t0 \<le> t1 < t0 + ttl\<close>) returns \<open>(v, True)\<close>
  and moves the expiry to \<open>t1 + ttl\<close>. In a state reached by any run from
  \<^verbatim>\<open>NewCache\<close>, the payload returned is the one of the most recent \<^verbatim>\<open>Set\<close> of the
  key.
\<close>

theorem Get_hit_refreshes:
  "(fmlookup (items cache) key = Some item \<and> \<not> expired now item \<longrightarrow>
      Get now key cache =
        ((data item, True),
         cache\<lparr>items := fmupd key (item\<lparr>expiresAt := now + ttl cache\<rparr>) (items cache)\<rparr>)) \<and>
   (t1 \<le> t0 + ttl cache \<longrightarrow>
      fst (Get t1 key (Set t0 key v cache)) = (v, True) \<and>
      fmlookup (items (snd (Get t1 key (Set t0 key v cache)))) key =
        Some \<lparr>data = v, expiresAt = t1 + ttl cache\<rparr>) \<and>
   (run es (fst (NewCache duration), Map.empty) = Some (cache, seen) \<and>
    fmlookup (items cache) key = Some item \<and> \<not> expired now item \<longrightarrow>
      (\<exists>d. last_set es key = Some d \<and> fst (Get now key cache) = (d, True)) \<and>
      fmlookup (items (snd (Get now key cache))) key =
        Some \<lparr>data = data item, expiresAt = now + duration\<rparr>)"
proof -
  have hit: "Get now key cache =
      ((data item, True),
       cache\<lparr>items := fmupd key (item\<lparr>expiresAt := now + ttl cache\<rparr>) (items cache)\<rparr>)"
    if "fmlookup (items cache) key = Some item" "\<not> expired now item"
    using that by (simp add: Get_def touch_def Let_def)
  have fresh: "fst (Get t1 key (Set t0 key v cache)) = (v, True) \<and>
      fmlookup (items (snd (Get t1 key (Set t0 key v cache)))) key =
        Some \<lparr>data = v, expiresAt = t1 + ttl cache\<rparr>"
    if "t1 \<le> t0 + ttl cache"
    using that by (simp add: Get_def Set_def touch_def expired_def Let_def)
  have reached: "(\<exists>d. last_set es key = Some d \<and> fst (Get now key cache) = (d, True)) \<and>
      fmlookup (items (snd (Get now key cache))) key =
        Some \<lparr>data = data item, expiresAt = now + duration\<rparr>"
    if r: "run es (fst (NewCache duration), Map.empty) = Some (cache, seen)"
      and l: "fmlookup (items cache) key = Some item" and x: "\<not> expired now item"
  proof -
    from reachable_touch_inv [OF r] have "ttl cache = duration"
      by (simp add: touch_inv_def)
    with hit [OF l x] reachable_last_set [OF r l] show ?thesis by simp
  qed
  from hit fresh reached show ?thesis by blast
qed

theorem Get_hit_refreshes_witness:
  "(3::int) \<le> 0 + ttl (fst (NewCache 5)) \<and>
   Get 3 ''a'' (Set 0 ''a'' ''1'' (fst (NewCache 5))) =
     ((''1'', True), Set 3 ''a'' ''1'' (fst (NewCache 5))) \<and>
   run [SetEv 0 ''a'' ''1'', GetEv 3 ''a''] (fst (NewCache 5), Map.empty) =
     Some (Set 3 ''a'' ''1'' (fst (NewCache 5)), [''a'' \<mapsto> 3]) \<and>
   fmlookup (items (Set 3 ''a'' ''1'' (fst (NewCache 5)))) ''a'' =
     Some \<lparr>data = ''1'', expiresAt = 8\<rparr> \<and>
   \<not> expired 6 \<lparr>data = ''1'', expiresAt = 8\<rparr> \<and>
   last_set [SetEv 0 ''a'' ''1'', GetEv 3 ''a''] ''a'' = Some ''1'' \<and>
   Get 6 ''a'' (Set 3 ''a'' ''1'' (fst (NewCache 5))) =
     ((''1'', True), Set 6 ''a'' ''1'' (fst (NewCache 5)))"
  using Get_hit_refreshes [where cache = "fst (NewCache 5)" and key = "''a''" and ?t0.0 = 0
      and ?t1.0 = 3 and v = "''1''"]
    Get_hit_refreshes [where cache = "Set 0 ''a'' ''1'' (fst (NewCache 5))" and key = "''a''"
      and item = "\<lparr>data = ''1'', expiresAt = 5\<rparr>" and now = 3]
    Get_hit_refreshes [where cache = "Set 3 ''a'' ''1'' (fst (NewCache 5))" and key = "''a''"
      and item = "\<lparr>data = ''1'', expiresAt = 8\<rparr>" and now = 6 and duration = 5
      and es = "[SetEv 0 ''a'' ''1'', GetEv 3 ''a'']" and seen = "[''a'' \<mapsto> 3]"]
  by (simp add: Set_def Get_def NewCache_def touch_def expired_def Let_def make_chan_def)

text \<open>
  Claim C4. When the key is absent or its item is expired, \<^verbatim>\<open>Get\<close> returns the empty
  string with \<open>found = False\<close> and the cache is the same as before: the expired entry is
  neither touched nor removed. An item whose expiry was set by a touch at \<open>t0\<close> is not
  found at any \<open>t1 > t0 + ttl\<close>, whether no sweep has run or a sweep has run at any time
  and in any order of visit. In a state reached by any run from \<^verbatim>\<open>NewCache\<close>, with or
  without sweeps, a key last touched at \<open>t0\<close> is not found at any \<open>t1 > t0 + ttl\<close>.
\<close>

theorem Get_miss_unchanged:
  "(fmlookup (items cache) key = None \<or> stale now cache key \<longrightarrow>
      Get now key cache = (([], False), cache)) \<and>
   (fmlookup (items cache) key = Some item \<and> expiresAt item = t0 + ttl cache \<and>
    t0 + ttl cache < t1 \<longrightarrow>
      Get t1 key cache = (([], False), cache) \<and>
      (\<forall>ts keys sched cache'. cleanup ts keys sched cache = Some cache' \<longrightarrow>
         Get t1 key cache' = (([], False), cache'))) \<and>
   (run es (fst (NewCache duration), Map.empty) = Some (cache, seen) \<and>
    seen key = Some t0 \<and> t0 + duration < t1 \<longrightarrow>
      Get t1 key cache = (([], False), cache))"
proof -
  have miss: "Get n key c = (([], False), c)"
    if "fmlookup (items c) key = None \<or> stale n c key" for n c
    using that by (auto simp: Get_def stale_def split: option.splits)
  have swept: "Get t1 key cache' = (([], False), cache')"
    if "fmlookup (items cache) key = Some item" "expiresAt item = t0 + ttl cache"
      "t0 + ttl cache < t1" "cleanup ts keys sched cache = Some cache'" for ts keys sched cache'
  proof -
    from cleanup_lookup [OF that(4), of key] that(1)
    have "fmlookup (items cache') key = None \<or> fmlookup (items cache') key = Some item"
      by simp
    with that(2,3) have "fmlookup (items cache') key = None \<or> stale t1 cache' key"
      by (auto simp: stale_def expired_def)
    then show ?thesis by (rule miss)
  qed
  have here: "Get t1 key cache = (([], False), cache)"
    if "fmlookup (items cache) key = Some item" "expiresAt item = t0 + ttl cache"
      "t0 + ttl cache < t1"
    using that by (intro miss) (simp add: stale_def expired_def)
  have reached: "Get t1 key cache = (([], False), cache)"
    if r: "run es (fst (NewCache duration), Map.empty) = Some (cache, seen)"
      and s: "seen key = Some t0" and late: "t0 + duration < t1"
  proof -
    have "stale t1 cache key" if l: "fmlookup (items cache) key = Some it" for it
    proof -
      from reachable_touch_inv [OF r] l obtain t
        where "seen key = Some t" and "expiresAt it = t + duration"
        by (auto simp: touch_inv_def)
      with s late l show ?thesis by (simp add: stale_def expired_def)
    qed
    then have "fmlookup (items cache) key = None \<or> stale t1 cache key"
      by (cases "fmlookup (items cache) key") auto
    then show ?thesis by (rule miss)
  qed
  show ?thesis using miss [of cache now] swept here reached by blast
qed

theorem Get_miss_unchanged_witness:
  "stale 6 (Set 0 ''a'' ''1'' (fst (NewCache 5))) ''a'' \<and>
   fmlookup (items (Set 0 ''a'' ''1'' (fst (NewCache 5)))) ''b'' = None \<and>
   Get 6 ''a'' (Set 0 ''a'' ''1'' (fst (NewCache 5))) =
     (([], False), Set 0 ''a'' ''1'' (fst (NewCache 5))) \<and>
   Get 6 ''b'' (Set 0 ''a'' ''1'' (fst (NewCache 5))) =
     (([], False), Set 0 ''a'' ''1'' (fst (NewCache 5))) \<and>
   cleanup 6 [''a''] quiet (Set 0 ''a'' ''1'' (fst (NewCache 5))) =
     Some ((fst (NewCache 5))\<lparr>FinishedItems := \<lparr>chan_buf = [''1''], chan_cap = 10\<rparr>\<rparr>) \<and>
   Get 6 ''a'' ((fst (NewCache 5))\<lparr>FinishedItems := \<lparr>chan_buf = [''1''], chan_cap = 10\<rparr>\<rparr>) =
     (([], False), (fst (NewCache 5))\<lparr>FinishedItems := \<lparr>chan_buf = [''1''], chan_cap = 10\<rparr>\<rparr>) \<and>
   run [SetEv 0 ''a'' ''1'', GetEv 3 ''a''] (fst (NewCache 5), Map.empty) =
     Some (Set 3 ''a'' ''1'' (fst (NewCache 5)), [''a'' \<mapsto> 3]) \<and>
   Get 9 ''a'' (Set 3 ''a'' ''1'' (fst (NewCache 5))) =
     (([], False), Set 3 ''a'' ''1'' (fst (NewCache 5)))"
  using Get_miss_unchanged [where cache = "Set 0 ''a'' ''1'' (fst (NewCache 5))"
      and key = "''a''" and now = 6 and item = "\<lparr>data = ''1'', expiresAt = 5\<rparr>"
      and ?t0.0 = 0 and ?t1.0 = 6]
    Get_miss_unchanged [where cache = "Set 0 ''a'' ''1'' (fst (NewCache 5))"
      and key = "''b''" and now = 6]
    Get_miss_unchanged [where cache = "Set 3 ''a'' ''1'' (fst (NewCache 5))"
      and key = "''a''" and ?t0.0 = 3 and ?t1.0 = 9 and duration = 5
      and es = "[SetEv 0 ''a'' ''1'', GetEv 3 ''a'']" and seen = "[''a'' \<mapsto> 3]"]
  by (simp add: Set_def NewCache_def touch_def expired_def Let_def make_chan_def stale_def
      cleanup_entry_def publish_def quiet_def consume_def chan_len_def chan_send_def
      fmdrop_fmupd_same Get_def)

section \<open>Delete\<close>

lemma Delete_absent:
  "fmlookup (items cache) key = None \<Longrightarrow> Delete key cache = cache"
  by (simp add: Delete_def fmdrop_idle' fmdom'_notI)

text \<open>
  Claim C9. \<^verbatim>\<open>Delete\<close> removes the entry of the key whatever its state and leaves
  every other entry as it was; on an absent key it changes nothing, so the count is the
  same; deleting twice is deleting once.
\<close>

theorem Delete_removes_idempotent:
  "fmlookup (items (Delete key cache)) key' =
     (if key' = key then None else fmlookup (items cache) key') \<and>
   (fmlookup (items cache) key = None \<longrightarrow>
      Delete key cache = cache \<and> fst (Count (Delete key cache)) = fst (Count cache)) \<and>
   Delete key (Delete key cache) = Delete key cache"
  by (simp add: Delete_absent) (simp add: Delete_def)

theorem Delete_removes_idempotent_witness:
  "fmlookup (items (Set 0 ''a'' ''1'' (fst (NewCache 5)))) ''b'' = None \<and>
   Delete ''b'' (Set 0 ''a'' ''1'' (fst (NewCache 5))) = Set 0 ''a'' ''1'' (fst (NewCache 5)) \<and>
   fmlookup (items (Delete ''a'' (Set 0 ''a'' ''1'' (fst (NewCache 5))))) ''a'' = None \<and>
   fst (Count (Delete ''b'' (Set 0 ''a'' ''1'' (fst (NewCache 5))))) = 1"
  using Delete_removes_idempotent [of "''b''" "Set 0 ''a'' ''1'' (fst (NewCache 5))" "''b''"]
    Delete_removes_idempotent [of "''a''" "Set 0 ''a'' ''1'' (fst (NewCache 5))" "''a''"]
  by (simp add: Set_def NewCache_def Count_def Delete_def touch_def make_chan_def Let_def)

text \<open>
  Claim C10. \<^verbatim>\<open>Delete\<close> leaves the notification queue as it is, whether or not the
  deleted item was expired, and so do \<^verbatim>\<open>Set\<close>, \<^verbatim>\<open>Get\<close> and \<^verbatim>\<open>Count\<close>: of the
  operations of the cache only the sweep sends to or receives from the queue.
\<close>

theorem Delete_keeps_queue:
  "FinishedItems (Delete key cache) = FinishedItems cache \<and>
   Length (Delete key cache) = Length cache \<and>
   FinishedItems (Set now key d cache) = FinishedItems cache \<and>
   FinishedItems (snd (Get now key cache)) = FinishedItems cache \<and>
   FinishedItems (snd (Count cache)) = FinishedItems cache"
  by (simp add: Delete_def Set_def Get_def Count_def Let_def split: option.split)

theorem Delete_keeps_queue_witness:
  "stale 9 (Set 0 ''a'' ''1'' (fst (NewCache 5))) ''a'' \<and>
   fmlookup (items (Delete ''a'' (Set 0 ''a'' ''1'' (fst (NewCache 5))))) ''a'' = None \<and>
   FinishedItems (Delete ''a'' (Set 0 ''a'' ''1'' (fst (NewCache 5)))) =
     \<lparr>chan_buf = [], chan_cap = 10\<rparr>"
  using Delete_keeps_queue [of "''a''" "Set 0 ''a'' ''1'' (fst (NewCache 5))" 0 "''1''"]
  by (simp add: Set_def NewCache_def Delete_def touch_def expired_def stale_def Let_def
      make_chan_def)

section \<open>Count\<close>

text \<open>
  Claim C7. \<^verbatim>\<open>Count\<close> returns the number of keys of the map and leaves the cache as
  it is. Expired entries are counted: at any time \<open>now\<close> the count is the number of
  expired entries plus the number of entries that are not expired.
\<close>

theorem Count_exact_readonly:
  "snd (Count cache) = cache \<and>
   fst (Count cache) = int (card {key. fmlookup (items cache) key \<noteq> None}) \<and>
   fst (Count cache) =
     int (card {key \<in> fmdom' (items cache). stale now cache key}) +
     int (card {key \<in> fmdom' (items cache). \<not> stale now cache key})"
proof -
  have "{key. fmlookup (items cache) key \<noteq> None} = fmdom' (items cache)"
    by (auto simp: fmlookup_dom'_iff)
  moreover have "card (fmdom' (items cache)) =
      card {key \<in> fmdom' (items cache). stale now cache key} +
      card {key \<in> fmdom' (items cache). \<not> stale now cache key}"
    by (rule card_split_pred) simp
  ultimately show ?thesis by (simp add: Count_def)
qed

theorem Count_exact_readonly_witness:
  "stale 100 (Set 50 ''b'' ''2'' (Set 0 ''a'' ''1'' (fst (NewCache 5)))) ''a'' \<and>
   \<not> stale 51 (Set 50 ''b'' ''2'' (Set 0 ''a'' ''1'' (fst (NewCache 5)))) ''b'' \<and>
   Count (Set 50 ''b'' ''2'' (Set 0 ''a'' ''1'' (fst (NewCache 5)))) =
     (2, Set 50 ''b'' ''2'' (Set 0 ''a'' ''1'' (fst (NewCache 5))))"
  using Count_exact_readonly [of "Set 50 ''b'' ''2'' (Set 0 ''a'' ''1'' (fst (NewCache 5)))" 51]
  by (simp add: Set_def NewCache_def Count_def touch_def make_chan_def Let_def stale_def
      expired_def)

section \<open>The sweep\<close>

subsection \<open>A sweep during which no consumer receives\<close>

text \<open>
  With a quiet consumer and a queue of capacity \<^verbatim>\<open>Length\<close>, the sweep returns for
  every order of visit, removes exactly the expired entries, sends one payload per
  removed key in the order of the visit, and \<^verbatim>\<open>Count\<close> drops by the number of expired
  keys.
\<close>

lemma quiet_sweep_removes_expired:
  assumes "queue_inv cache" and "scan_of keys cache"
  shows "\<exists>cache'. cleanup now keys quiet cache = Some cache' \<and>
     (\<forall>k. fmlookup (items cache') k =
        (if stale now cache k then None else fmlookup (items cache) k)) \<and>
     chan_buf (FinishedItems cache') =
       lastn (chan_cap (FinishedItems cache))
         (chan_buf (FinishedItems cache) @ reclaimed now keys cache) \<and>
     set (reclaimed now keys cache) =
       {data item | k item. fmlookup (items cache) k = Some item \<and> expired now item} \<and>
     length (reclaimed now keys cache) = card {k. stale now cache k} \<and>
     fst (Count cache') = fst (Count cache) - int (card {k. stale now cache k}) \<and>
     (\<forall>k. \<not> stale now cache' k) \<and>
     ttl cache' = ttl cache"
proof -
  from assms(2) have d: "distinct keys" and s: "set keys = fmdom' (items cache)"
    by (simp_all add: scan_of_def)
  let ?c = "swept now keys cache"
  have run: "cleanup now keys quiet cache = Some ?c"
    by (rule cleanup_result [OF assms(1) d])
  have look: "fmlookup (items ?c) k =
      (if stale now cache k then None else fmlookup (items cache) k)" for k
    using s by (auto simp: swept_def dest: stale_in_dom)
  have buf: "chan_buf (FinishedItems ?c) =
      lastn (chan_cap (FinishedItems cache))
        (chan_buf (FinishedItems cache) @ reclaimed now keys cache)"
    by (simp add: swept_def)
  have pay: "set (reclaimed now keys cache) =
      {data item | k item. fmlookup (items cache) k = Some item \<and> expired now item}"
    unfolding set_reclaimed s by (auto simp: fmlookup_dom'_iff)
  have len: "length (reclaimed now keys cache) = card {k. stale now cache k}"
    by (rule card_stale [OF assms(2)])
  have dom: "fmdom' (items ?c) = {k \<in> fmdom' (items cache). \<not> stale now cache k}"
    using s by (auto simp: swept_def dest: stale_in_dom)
  have "{k \<in> fmdom' (items cache). stale now cache k} = {k. stale now cache k}"
    by (auto dest: stale_in_dom)
  with card_split_pred [of "fmdom' (items cache)" "stale now cache"] dom
  have cnt: "fst (Count ?c) = fst (Count cache) - int (card {k. stale now cache k})"
    by (simp add: Count_def)
  have gone: "\<not> stale now ?c k" for k
    using look [of k] by (auto simp: stale_def split: option.splits)
  have "ttl ?c = ttl cache" by (simp add: swept_def)
  with run look buf pay len cnt gone show ?thesis by blast
qed

text \<open>
  With a quiet consumer, the publish step on a full queue drops the oldest value and
  sends; the queue after a sweep holds the last values, up to the capacity, of the old
  queue followed by the reclaimed payloads.
\<close>

lemma quiet_publish_drops_oldest:
  assumes "queue_inv cache"
  shows "(length (chan_buf (FinishedItems cache)) = chan_cap (FinishedItems cache) \<longrightarrow>
      (\<exists>oldest rest. chan_buf (FinishedItems cache) = oldest # rest \<and>
         publish (quiet key) v cache =
           Some (cache\<lparr>FinishedItems := (FinishedItems cache)\<lparr>chan_buf := rest @ [v]\<rparr>\<rparr>))) \<and>
    (length (chan_buf (FinishedItems cache)) < chan_cap (FinishedItems cache) \<longrightarrow>
       publish (quiet key) v cache =
         Some (cache\<lparr>FinishedItems := (FinishedItems cache)\<lparr>chan_buf :=
           chan_buf (FinishedItems cache) @ [v]\<rparr>\<rparr>)) \<and>
    (\<exists>cache'. publish (quiet key) v cache = Some cache' \<and> queue_inv cache') \<and>
    (scan_of keys cache \<longrightarrow>
      (\<exists>cache'. cleanup now keys quiet cache = Some cache' \<and> queue_inv cache' \<and>
         chan_buf (FinishedItems cache') =
           lastn (chan_cap (FinishedItems cache))
             (chan_buf (FinishedItems cache) @ reclaimed now keys cache) \<and>
         (chan_cap (FinishedItems cache) \<le> length (reclaimed now keys cache) \<longrightarrow>
            chan_buf (FinishedItems cache') =
              lastn (chan_cap (FinishedItems cache)) (reclaimed now keys cache))))"
proof -
  let ?q = "FinishedItems cache"
  have full: "\<exists>oldest rest. chan_buf ?q = oldest # rest \<and>
      publish (quiet key) v cache = Some (cache\<lparr>FinishedItems := ?q\<lparr>chan_buf := rest @ [v]\<rparr>\<rparr>)"
    if f: "length (chan_buf ?q) = chan_cap ?q"
  proof -
    from assms f obtain oldest rest where b: "chan_buf ?q = oldest # rest"
      by (cases "chan_buf ?q") (auto simp: queue_inv_def)
    with f have "lastn (chan_cap ?q) (chan_buf ?q @ [v]) = rest @ [v]"
      by (simp add: lastn_def)
    with publish_result [OF assms, of key v] b show ?thesis by simp
  qed
  have room: "publish (quiet key) v cache = Some (cache\<lparr>FinishedItems := ?q\<lparr>chan_buf := chan_buf ?q @ [v]\<rparr>\<rparr>)"
    if "length (chan_buf ?q) < chan_cap ?q"
    using that publish_result [OF assms, of key v] by (simp add: lastn_short)
  have pub: "\<exists>cache'. publish (quiet key) v cache = Some cache' \<and> queue_inv cache'"
    using publish_result [OF assms, of key v] queue_inv_publish [OF assms] by simp
  have sweep: "\<exists>cache'. cleanup now keys quiet cache = Some cache' \<and> queue_inv cache' \<and>
      chan_buf (FinishedItems cache') =
        lastn (chan_cap ?q) (chan_buf ?q @ reclaimed now keys cache) \<and>
      (chan_cap ?q \<le> length (reclaimed now keys cache) \<longrightarrow>
         chan_buf (FinishedItems cache') = lastn (chan_cap ?q) (reclaimed now keys cache))"
    if "scan_of keys cache"
  proof -
    from that have d: "distinct keys" by (simp add: scan_of_def)
    have run: "cleanup now keys quiet cache = Some (swept now keys cache)"
      by (rule cleanup_result [OF assms d])
    have inv: "queue_inv (swept now keys cache)"
      using assms by (simp add: swept_def queue_inv_def length_lastn)
    have buf: "chan_buf (FinishedItems (swept now keys cache)) =
        lastn (chan_cap ?q) (chan_buf ?q @ reclaimed now keys cache)"
      by (simp add: swept_def)
    have "lastn (chan_cap ?q) (chan_buf ?q @ reclaimed now keys cache) =
        lastn (chan_cap ?q) (reclaimed now keys cache)"
      if "chan_cap ?q \<le> length (reclaimed now keys cache)"
      using that by (simp add: lastn_def)
    with run inv buf show ?thesis by simp
  qed
  from full room pub sweep show ?thesis by blast
qed

subsection \<open>A sweep that returns\<close>

text \<open>
  Whatever the consumer does, a sweep that returns has removed exactly the expired
  entries among the keys it visited.
\<close>

lemma cleanup_entry_items:
  assumes "cleanup_entry now key d cache = Some cache'"
  shows "items cache' = (if stale now cache key then fmdrop key (items cache) else items cache)"
  using assms
  by (auto simp: cleanup_entry_def stale_def split: option.splits if_splits dest!: publish_frame)

lemma cleanup_items:
  assumes "cleanup now keys sched cache = Some cache'" and "distinct keys"
  shows "items cache' = fmfilter (\<lambda>k. \<not> (k \<in> set keys \<and> stale now cache k)) (items cache)"
  using assms
proof (induction keys arbitrary: cache)
  case Nil
  then show ?case by simp
next
  case (Cons key keys)
  from Cons.prems(1) obtain c1 where e: "cleanup_entry now key (sched key) cache = Some c1"
    and r: "cleanup now keys sched c1 = Some cache'"
    by (auto split: option.splits)
  from Cons.prems(2) have d: "distinct keys" and nk: "key \<notin> set keys" by simp_all
  note i1 = cleanup_entry_items [OF e]
  have st: "stale now c1 k = (k \<noteq> key \<and> stale now cache k)" for k
    using i1 by (auto simp: stale_def)
  have "items cache' = fmfilter (\<lambda>k. \<not> (k \<in> set keys \<and> stale now c1 k)) (items c1)"
    by (rule Cons.IH [OF r d])
  also have "\<dots> =
      fmfilter (\<lambda>k. \<not> (k \<in> set (key # keys) \<and> stale now cache k)) (items cache)"
  proof (rule fmap_ext)
    fix k
    show "fmlookup (fmfilter (\<lambda>k. \<not> (k \<in> set keys \<and> stale now c1 k)) (items c1)) k =
        fmlookup (fmfilter (\<lambda>k. \<not> (k \<in> set (key # keys) \<and> stale now cache k))
          (items cache)) k"
      using i1 nk st [of k] by (auto simp: stale_def split: option.splits)
  qed
  finally show ?case .
qed

subsection \<open>A consumer that receives during the publish step\<close>

text \<open>
  Claim C1. The claim is that a run of the sweep removes every expired entry from the
  map and publishes its payload to the queue. The code does not do so in every run. In
  the cache \<open>twelfth\<close>, reached from \<^verbatim>\<open>NewCache\<close> by twelve \<^verbatim>\<open>Set\<close>s and one sweep, the
  queue is full and the entry of \<open>z\<close> is expired at time 13. When a consumer receives the
  ten queued values between the test of line 64 and the receive of line 65, the sweep
  has deleted the entry and blocks in the receive: it never sends the payload and never
  returns. With a quiet consumer the same sweep returns and the payload is the newest
  value of the queue.
\<close>

theorem cleanup_blocks_on_race:
  "map_option fst
     (run [SetEv 0 ''a'' ''1'', SetEv 0 ''b'' ''2'', SetEv 0 ''c'' ''3'', SetEv 0 ''d'' ''4'',
        SetEv 0 ''e'' ''5'', SetEv 0 ''f'' ''6'', SetEv 0 ''g'' ''7'', SetEv 0 ''h'' ''8'',
        SetEv 0 ''i'' ''9'', SetEv 0 ''j'' ''10'', SetEv 0 ''k'' ''11'',
        CleanupEv 6 [''k'', ''j'', ''i'', ''h'', ''g'', ''f'', ''e'', ''d'', ''c'', ''b'', ''a''] quiet,
        SetEv 7 ''z'' ''12'']
       (fst (NewCache 5), Map.empty)) = Some twelfth \<and>
   queue_inv twelfth \<and> scan_of [''z''] twelfth \<and> stale 13 twelfth ''z'' \<and>
   cleanup 13 [''z''] racy twelfth = None \<and>
   run [SetEv 0 ''a'' ''1'', SetEv 0 ''b'' ''2'', SetEv 0 ''c'' ''3'', SetEv 0 ''d'' ''4'',
        SetEv 0 ''e'' ''5'', SetEv 0 ''f'' ''6'', SetEv 0 ''g'' ''7'', SetEv 0 ''h'' ''8'',
        SetEv 0 ''i'' ''9'', SetEv 0 ''j'' ''10'', SetEv 0 ''k'' ''11'',
        CleanupEv 6 [''k'', ''j'', ''i'', ''h'', ''g'', ''f'', ''e'', ''d'', ''c'', ''b'', ''a''] quiet,
        SetEv 7 ''z'' ''12'',
        CleanupEv 13 [''z''] racy]
     (fst (NewCache 5), Map.empty) = None \<and>
   cleanup 13 [''z''] quiet twelfth =
     Some ((fst (NewCache 5))\<lparr>FinishedItems :=
       \<lparr>chan_buf = [''9'', ''8'', ''7'', ''6'', ''5'', ''4'', ''3'', ''2'', ''1'', ''12''],
        chan_cap = 10\<rparr>\<rparr>)"
  by (simp add: twelfth_def full_queue_def racy_def quiet_def Set_def NewCache_def touch_def
      expired_def stale_def Let_def make_chan_def cleanup_entry_def publish_def consume_def
      chan_len_def chan_send_def chan_recv_def fmdrop_fmupd queue_inv_def scan_of_def)

text \<open>
  Claim C2. The claim is that the publish step on a full queue drops the oldest value,
  sends the payload and never blocks. The code tests the length, receives and sends in
  three separate statements while consumers receive from the queue without the mutex.
  On the full queue of \<open>full_queue\<close>, which satisfies the invariant of the queue, a
  consumer that receives the ten values after the test leaves the receive of line 65 on
  an empty queue: the publish step blocks. With a quiet consumer the same step drops the
  oldest value and sends.
\<close>

theorem publish_blocks_on_race:
  "cleanup 6 [''k'', ''j'', ''i'', ''h'', ''g'', ''f'', ''e'', ''d'', ''c'', ''b'', ''a''] quiet eleven = Some full_queue \<and>
   queue_inv full_queue \<and>
   chan_len (FinishedItems full_queue) = Length full_queue \<and>
   publish (racy ''z'') ''12'' full_queue = None \<and>
   publish (quiet ''z'') ''12'' full_queue =
     Some (full_queue\<lparr>FinishedItems :=
       \<lparr>chan_buf = [''9'', ''8'', ''7'', ''6'', ''5'', ''4'', ''3'', ''2'', ''1'', ''12''],
        chan_cap = 10\<rparr>\<rparr>)"
  by (simp add: eleven_def full_queue_def racy_def quiet_def Set_def NewCache_def touch_def
      expired_def Let_def make_chan_def cleanup_entry_def publish_def consume_def
      chan_len_def chan_send_def chan_recv_def fmdrop_fmupd queue_inv_def)

section \<open>Expiry and the last touch\<close>

text \<open>
  Claim C5. In every state that a run of steps reaches from \<^verbatim>\<open>NewCache\<close>, every item
  of the map has \<open>expiresAt\<close> equal to the time of the last touch of its key plus the
  \<open>ttl\<close>, a touch being a \<^verbatim>\<open>Set\<close> of the key or a \<^verbatim>\<open>Get\<close> that finds it. And a
  step from such a state changes the item of a key that stays in the map only by touching
  it: otherwise the item, so its \<open>expiresAt\<close>, is what it was.
\<close>

theorem expiry_is_last_touch:
  assumes "run es (fst (NewCache duration), Map.empty) = Some (cache, seen)"
  shows "(\<forall>k item. fmlookup (items cache) k = Some item \<longrightarrow>
            (\<exists>t. seen k = Some t \<and> expiresAt item = t + duration)) \<and>
         (\<forall>e cache' k item item'.
            step e cache = Some cache' \<and> fmlookup (items cache) k = Some item \<and>
            fmlookup (items cache') k = Some item' \<longrightarrow>
              item' = item \<or>
              (\<exists>t. touched e cache = Some (k, t) \<and> expiresAt item' = t + duration))"
proof -
  have "touch_inv duration (fst (NewCache duration), Map.empty)"
    by (simp add: touch_inv_def NewCache_def Let_def)
  from run_touch_inv [OF this assms] have i: "touch_inv duration (cache, seen)" .
  then have "ttl cache = duration" by (simp add: touch_inv_def)
  with step_item have b: "item' = item \<or>
      (\<exists>t. touched e cache = Some (k, t) \<and> expiresAt item' = t + duration)"
    if "step e cache = Some cache'" "fmlookup (items cache) k = Some item"
      "fmlookup (items cache') k = Some item'" for e cache' k item item'
    using that by blast
  from i have a: "\<exists>t. seen k = Some t \<and> expiresAt item = t + duration"
    if "fmlookup (items cache) k = Some item" for k item
    using that by (simp add: touch_inv_def)
  from a b show ?thesis by blast
qed

theorem expiry_is_last_touch_witness:
  "run [SetEv 0 ''a'' ''1'', SetEv 1 ''b'' ''2'', GetEv 3 ''a'', CleanupEv 7 [''a'', ''b''] quiet]
      (fst (NewCache 5), Map.empty) =
     Some (\<lparr>ttl = 5, items = fmupd ''a'' \<lparr>data = ''1'', expiresAt = 8\<rparr> fmempty, Length = 10,
             FinishedItems = \<lparr>chan_buf = [''2''], chan_cap = 10\<rparr>\<rparr>,
           [''b'' \<mapsto> 1, ''a'' \<mapsto> 3]) \<and>
   (\<exists>t. [''b'' \<mapsto> 1, ''a'' \<mapsto> 3] ''a'' = Some t \<and> (8::int) = t + 5) \<and>
   step (GetEv 6 ''a'')
       \<lparr>ttl = 5, items = fmupd ''a'' \<lparr>data = ''1'', expiresAt = 8\<rparr> fmempty, Length = 10,
        FinishedItems = \<lparr>chan_buf = [''2''], chan_cap = 10\<rparr>\<rparr> =
     Some \<lparr>ttl = 5, items = fmupd ''a'' \<lparr>data = ''1'', expiresAt = 11\<rparr> fmempty, Length = 10,
           FinishedItems = \<lparr>chan_buf = [''2''], chan_cap = 10\<rparr>\<rparr> \<and>
   touched (GetEv 6 ''a'')
       \<lparr>ttl = 5, items = fmupd ''a'' \<lparr>data = ''1'', expiresAt = 8\<rparr> fmempty, Length = 10,
        FinishedItems = \<lparr>chan_buf = [''2''], chan_cap = 10\<rparr>\<rparr> = Some (''a'', 6)"
  using expiry_is_last_touch [where es = "[SetEv 0 ''a'' ''1'', SetEv 1 ''b'' ''2'', GetEv 3 ''a'',
      CleanupEv 7 [''a'', ''b''] quiet]" and duration = 5
      and cache = "\<lparr>ttl = 5, items = fmupd ''a'' \<lparr>data = ''1'', expiresAt = 8\<rparr> fmempty,
        Length = 10, FinishedItems = \<lparr>chan_buf = [''2''], chan_cap = 10\<rparr>\<rparr>"
      and seen = "[''b'' \<mapsto> 1, ''a'' \<mapsto> 3]"]
  by (simp add: Set_def Get_def NewCache_def touch_def expired_def Let_def make_chan_def
      cleanup_entry_def publish_def quiet_def consume_def chan_len_def chan_send_def
      chan_recv_def fmdrop_fmupd scan_of_def insert_commute)

end
